theory Spec2Isabelle
  imports Complex_Main "HOL-Library.Multiset" "HOL-Library.Log_Nat"
begin

section \<open>The test-steps timeline builder (\<open>useGetTestSections\<close>)\<close>

text \<open>
  The hook \<open>useGetTestSections\<close> merges the steps of one test case with network
  summaries and navigation annotations and splits the merged sequence into the three
  sections \<open>beforeEach\<close>, \<open>testBody\<close> and \<open>afterEach\<close>. The body of its
  \<open>useMemo\<close> callback is a pure function of the selector results, the start time and
  the step list; that function is embedded here.

  The values \<open>undefined\<close> of optional fields are \<open>None\<close>.
\<close>

subsection \<open>Numbers\<close>

text \<open>
  Times are JavaScript numbers, that is IEEE 754 doubles. A finite double is a rational
  number, and the sum or difference of two doubles is the exact result rounded to the
  nearest double, ties to the even significand. Times are modelled as \<open>rat\<close> with
  this rounding written out: \<open>roundDouble\<close> rounds to 53 significant bits. The range
  of the exponent is not bounded, so the model is the double arithmetic for results of
  magnitude between \<open>2 ^ -1022\<close> and \<open>2 ^ 1024\<close> and for 0; overflow, subnormal
  results, \<open>NaN\<close> and infinite inputs are outside it. Comparisons of finite doubles
  are exact. The initial \<open>Infinity\<close> of the window's lower bound is a constructor of
  its own.
\<close>

definition pow2 :: "int \<Rightarrow> rat" where
  "pow2 e = (if 0 \<le> e then 2 ^ nat e else 1 / 2 ^ nat (- e))"

text \<open>For \<open>x > 0\<close>: the \<open>e\<close> with \<open>2 ^ e \<le> x < 2 ^ (e + 1)\<close>.\<close>

definition exponentOf :: "rat \<Rightarrow> int" where
  "exponentOf x =
     (let (p, q) = quotient_of x; e = bitlen p - bitlen q
      in if pow2 e \<le> x then e else e - 1)"

definition roundHalfEven :: "rat \<Rightarrow> int" where
  "roundHalfEven m =
     (let f = \<lfloor>m\<rfloor>; r = m - of_int f
      in if r < 1 / 2 then f else if 1 / 2 < r then f + 1 else if even f then f else f + 1)"

definition roundDouble :: "rat \<Rightarrow> rat" where
  "roundDouble x =
     (if x = 0 then 0
      else (let a = \<bar>x\<bar>; u = pow2 (exponentOf a - 52);
                m = of_int (roundHalfEven (a / u)) * u
            in if 0 < x then m else - m))"

text \<open>The operators \<open>+\<close> and \<open>-\<close> of the source.\<close>

definition dadd :: "rat \<Rightarrow> rat \<Rightarrow> rat" where
  "dadd x y = roundDouble (x + y)"

definition dsub :: "rat \<Rightarrow> rat \<Rightarrow> rat" where
  "dsub x y = roundDouble (x - y)"

subsection \<open>Data\<close>

text \<open>\<open>CypressAnnotationMessage\<close>: the fields the component reads.\<close>

record cypress_message =
  msg_id :: string
  url :: "string option"

text \<open>An annotation of the reporter store: \<open>{ message, time }\<close>.\<close>

record annotation =
  message :: cypress_message
  time :: rat

text \<open>
  \<open>TestStep\<close>: the fields the builder reads. \<open>duration\<close> may be absent;
  \<open>error\<close> is the truthiness of \<open>s.error\<close>; \<open>hook\<close> is an optional string.
\<close>

record test_step =
  step_id :: string
  name :: string
  duration :: "rat option"
  relativeStartTime :: rat
  error :: bool
  hook :: "string option"

text \<open>The object \<open>annotations\<close> built for every step.\<close>

record step_annotations =
  ann_end :: "annotation option"
  ann_enqueue :: "annotation option"
  ann_start :: "annotation option"

text \<open>
  \<open>AnnotatedTestStep\<close>: the spread \<open>...s\<close> followed by the fields the builder
  sets (\<open>duration\<close> is overwritten by the resolved duration).
\<close>

record annotated_test_step =
  a_step_id :: string
  a_name :: string
  a_duration :: rat
  a_relativeStartTime :: rat
  a_error :: bool
  a_hook :: "string option"
  absoluteStartTime :: rat
  absoluteEndTime :: rat
  index :: nat
  annotations :: step_annotations

text \<open>\<open>RequestSummary\<close>: identifier, cause and optional end time.\<close>

record request_summary =
  req_id :: string
  cause :: string
  end_time :: "rat option"

text \<open>
  \<open>CompositeTestEvent\<close>: the tagged union of \<open>StepEvent\<close>, \<open>NetworkEvent\<close> and
  \<open>NavigationEvent\<close>; the first argument is the field \<open>time\<close>.
\<close>

datatype composite_test_event =
    StepEvent rat annotated_test_step
  | NetworkEvent rat request_summary
  | NavigationEvent rat cypress_message

fun eventTime :: "composite_test_event \<Rightarrow> rat" where
  "eventTime (StepEvent t _) = t"
| "eventTime (NetworkEvent t _) = t"
| "eventTime (NavigationEvent t _) = t"

fun isStep :: "composite_test_event \<Rightarrow> bool" where
  "isStep (StepEvent _ _) = True"
| "isStep _ = False"

text \<open>
  What the selectors return: the four annotation streams of the test title, and the
  summaries computed by \<open>partialRequestsToCompleteSummaries(requests, events, new Set())\<close>,
  a function of another module that is taken as given.
\<close>

record app_state =
  navigationEvents :: "annotation list"
  annotationsEnqueue :: "annotation list"
  annotationsEnd :: "annotation list"
  annotationsStart :: "annotation list"
  requestSummaries :: "request_summary list"

text \<open>The three sections returned.\<close>

record test_sections =
  beforeEach :: "composite_test_event list"
  testBody :: "composite_test_event list"
  afterEach :: "composite_test_event list"

subsection \<open>Step time resolution\<close>

text \<open>\<open>list.find(a => a.message.id === s.id)\<close>\<close>

definition findAnnotation :: "annotation list \<Rightarrow> test_step \<Rightarrow> annotation option" where
  "findAnnotation anns s = find (\<lambda>a. msg_id (message a) = step_id s) anns"

text \<open>\<open>s.duration || 1\<close>: an absent or zero duration is replaced by 1.\<close>

definition resolvedDuration :: "test_step \<Rightarrow> rat" where
  "resolvedDuration s = (case duration s of None \<Rightarrow> 1 | Some d \<Rightarrow> if d = 0 then 1 else d)"

text \<open>\<open>annotations.start?.time ?? startTime + s.relativeStartTime\<close>\<close>

definition resolvedStart :: "app_state \<Rightarrow> rat \<Rightarrow> test_step \<Rightarrow> rat" where
  "resolvedStart st startTime s =
     (case findAnnotation (annotationsStart st) s of
        Some a \<Rightarrow> time a
      | None \<Rightarrow> dadd startTime (relativeStartTime s))"

text \<open>\<open>annotations.end?.time ?? absoluteStartTime + duration\<close>\<close>

definition provisionalEnd :: "app_state \<Rightarrow> rat \<Rightarrow> test_step \<Rightarrow> rat" where
  "provisionalEnd st startTime s =
     (case findAnnotation (annotationsEnd st) s of
        Some a \<Rightarrow> time a
      | None \<Rightarrow> dadd (resolvedStart st startTime s) (resolvedDuration s))"

text \<open>
  The callback of \<open>steps.map((s, i) => ...)\<close>, up to the object stored in the field
  \<open>event\<close>.
\<close>

definition annotateStep :: "app_state \<Rightarrow> rat \<Rightarrow> test_step \<Rightarrow> nat \<Rightarrow> annotated_test_step" where
  "annotateStep st startTime s i =
     (let annEnd = findAnnotation (annotationsEnd st) s;
          annEnqueue = findAnnotation (annotationsEnqueue st) s;
          annStart = findAnnotation (annotationsStart st) s;
          dur = resolvedDuration s;
          startT = resolvedStart st startTime s;
          endT = provisionalEnd st startTime s;
          isAssert = (name s = ''assert'');
          startT' = (if isAssert \<and> error s then dsub endT 1 else startT);
          endT' = (if isAssert \<and> \<not> error s then dadd startT 1 else endT);
          annStart' = (if isAssert \<and> error s then annEnd else annStart);
          annEnd' = (if isAssert \<and> \<not> error s then annStart else annEnd);
          dur' = (if isAssert then 1 else dur)
      in \<lparr> a_step_id = step_id s, a_name = name s, a_duration = dur',
           a_relativeStartTime = relativeStartTime s, a_error = error s, a_hook = hook s,
           absoluteStartTime = startT', absoluteEndTime = dsub endT' 1, index = i,
           annotations = \<lparr> ann_end = annEnd', ann_enqueue = annEnqueue, ann_start = annStart' \<rparr> \<rparr>)"

text \<open>The event object of a step: \<open>time\<close> is its \<open>absoluteStartTime\<close>.\<close>

definition toStepEvent :: "annotated_test_step \<Rightarrow> composite_test_event" where
  "toStepEvent a = StepEvent (absoluteStartTime a) a"

fun annotateFrom :: "app_state \<Rightarrow> rat \<Rightarrow> nat \<Rightarrow> test_step list \<Rightarrow> annotated_test_step list" where
  "annotateFrom st startTime i [] = []"
| "annotateFrom st startTime i (s # ss) =
     annotateStep st startTime s i # annotateFrom st startTime (Suc i) ss"

definition annotatedSteps :: "app_state \<Rightarrow> rat \<Rightarrow> test_step list \<Rightarrow> annotated_test_step list" where
  "annotatedSteps st startTime steps = annotateFrom st startTime 0 steps"

definition stepsByTime :: "app_state \<Rightarrow> rat \<Rightarrow> test_step list \<Rightarrow> composite_test_event list" where
  "stepsByTime st startTime steps = map toStepEvent (annotatedSteps st startTime steps)"

subsection \<open>The window of the steps\<close>

datatype bound = Infinity | Finite rat

fun minBound :: "bound \<Rightarrow> rat \<Rightarrow> bound" where
  "minBound Infinity x = Finite x"
| "minBound (Finite m) x = Finite (min m x)"

fun leBound :: "bound \<Rightarrow> rat \<Rightarrow> bool" where
  "leBound Infinity x = False"
| "leBound (Finite m) x = (m \<le> x)"

record time_range =
  range_min :: bound
  range_max :: rat

text \<open>
  \<open>stepsByTime.reduce((acc, s) => ({ min: Math.min(acc.min, s.event.absoluteStartTime),
  max: Math.max(acc.max, s.event.absoluteEndTime) }), { min: Infinity, max: 0 })\<close>
\<close>

definition timesStep :: "time_range \<Rightarrow> annotated_test_step \<Rightarrow> time_range" where
  "timesStep acc a =
     \<lparr> range_min = minBound (range_min acc) (absoluteStartTime a),
       range_max = max (range_max acc) (absoluteEndTime a) \<rparr>"

definition stepTimes :: "annotated_test_step list \<Rightarrow> time_range" where
  "stepTimes as = foldl timesStep \<lparr> range_min = Infinity, range_max = 0 \<rparr> as"

text \<open>\<open>time >= times.min && time < times.max\<close>\<close>

definition isDuringSteps :: "time_range \<Rightarrow> rat \<Rightarrow> bool" where
  "isDuringSteps r t = (leBound (range_min r) t \<and> t < range_max r)"

subsection \<open>Filtering the network and navigation events\<close>

definition keepSummary :: "time_range \<Rightarrow> request_summary \<Rightarrow> bool" where
  "keepSummary r n =
     ((cause n = ''xhr'' \<or> cause n = ''fetch'') \<and>
      (case end_time n of None \<Rightarrow> False | Some t \<Rightarrow> isDuringSteps r t))"

text \<open>\<open>{ time: n.end!, type: "network", event: n }\<close>, applied after the filter only.\<close>

definition toNetworkEvent :: "request_summary \<Rightarrow> composite_test_event" where
  "toNetworkEvent n = NetworkEvent (case end_time n of Some t \<Rightarrow> t | None \<Rightarrow> 0) n"

definition networkDataByTime :: "time_range \<Rightarrow> request_summary list \<Rightarrow> composite_test_event list" where
  "networkDataByTime r ns = map toNetworkEvent (filter (keepSummary r) ns)"

definition navigationEventsByTime :: "time_range \<Rightarrow> annotation list \<Rightarrow> composite_test_event list" where
  "navigationEventsByTime r es =
     map (\<lambda>n. NavigationEvent (time n) (message n)) (filter (\<lambda>e. isDuringSteps r (time e)) es)"

subsection \<open>The global sort\<close>

text \<open>The comparator handed to \<open>Array.prototype.sort\<close>.\<close>

fun compareEvents :: "composite_test_event \<Rightarrow> composite_test_event \<Rightarrow> rat" where
  "compareEvents (StepEvent ta ea) (StepEvent tb eb) =
     (if a_hook ea \<noteq> a_hook eb then
        (if a_hook ea = Some ''beforeEach'' \<and> a_hook eb \<noteq> Some ''beforeEach'' then - 1
         else if a_hook ea = Some ''afterEach'' \<and> a_hook eb \<noteq> Some ''afterEach'' then 1
         else dsub ta tb)
      else dsub ta tb)"
| "compareEvents a b = dsub (eventTime a) (eventTime b)"

text \<open>
  \<open>Array.prototype.sort\<close> is a stable sort. The language fixes its result only where
  the comparator is consistent on the elements; elsewhere the order is left to the
  engine. The sort is modelled as V8 sorts an array of fewer than 64 elements: the
  longest run at the start of the array is found (\<open>countRun\<close>; a strictly descending
  run is reversed), and every further element is inserted by binary search into the
  sorted part before it. Each comparison is the call \<open>comparefn(later, earlier)\<close>
  and only its sign is used. From 64 elements on V8 merges several such runs; the
  result is the same wherever the comparator is consistent.
\<close>

fun countRun ::
  "bool \<Rightarrow> composite_test_event \<Rightarrow> composite_test_event list \<Rightarrow>
     composite_test_event list \<times> composite_test_event list" where
  "countRun descending previous [] = ([], [])"
| "countRun descending previous (current # rest) =
     (let order = compareEvents current previous
      in if (if descending then 0 \<le> order else order < 0) then ([], current # rest)
         else (let (run, remaining) = countRun descending current rest
               in (current # run, remaining)))"

fun countAndMakeRun ::
  "composite_test_event list \<Rightarrow> composite_test_event list \<times> composite_test_event list" where
  "countAndMakeRun [] = ([], [])"
| "countAndMakeRun [x] = ([x], [])"
| "countAndMakeRun (low # high # rest) =
     (let descending = (compareEvents high low < 0);
          (run, remaining) = countRun descending high rest
      in (if descending then rev (low # high # run) else low # high # run, remaining))"

text \<open>
  The binary search for the place of \<open>pivot\<close> in the sorted part \<open>xs\<close>: with
  \<open>mid\<close> the middle index, a negative \<open>comparefn(pivot, xs[mid])\<close> continues to the
  left of \<open>mid\<close>, any other result to the right of it.
\<close>

function binaryInsert ::
  "composite_test_event \<Rightarrow> composite_test_event list \<Rightarrow> composite_test_event list" where
  "binaryInsert pivot xs =
     (if xs = [] then [pivot]
      else (let mid = length xs div 2
            in if compareEvents pivot (xs ! mid) < 0
               then binaryInsert pivot (take mid xs) @ drop mid xs
               else take (Suc mid) xs @ binaryInsert pivot (drop (Suc mid) xs)))"
  by pat_completeness auto
termination
  by (relation "measure (\<lambda>(pivot, xs). length xs)") auto

declare binaryInsert.simps [simp del]

definition sortEvents :: "composite_test_event list \<Rightarrow> composite_test_event list" where
  "sortEvents xs =
     (let (run, remaining) = countAndMakeRun xs
      in foldl (\<lambda>sorted pivot. binaryInsert pivot sorted) run remaining)"

definition allEvents :: "app_state \<Rightarrow> rat \<Rightarrow> test_step list \<Rightarrow> composite_test_event list" where
  "allEvents st startTime steps =
     (let as = annotatedSteps st startTime steps;
          r = stepTimes as
      in sortEvents (networkDataByTime r (requestSummaries st) @
                     map toStepEvent as @
                     navigationEventsByTime r (navigationEvents st)))"

subsection \<open>Partitioning into the three sections\<close>

text \<open>
  \<open>currentStack\<close> is a reference to one of the three arrays; the comparisons
  \<open>currentStack !== beforeEach\<close> compare references. The reference is a tag.
\<close>

datatype stack_ref = RefBeforeEach | RefTestBody | RefAfterEach

record partition_state =
  s_beforeEach :: "composite_test_event list"
  s_testBody :: "composite_test_event list"
  s_afterEach :: "composite_test_event list"
  currentStack :: stack_ref
  nonStepStack :: "composite_test_event list"

definition initialState :: partition_state where
  "initialState = \<lparr> s_beforeEach = [], s_testBody = [], s_afterEach = [],
                    currentStack = RefBeforeEach, nonStepStack = [] \<rparr>"

fun stackAt :: "partition_state \<Rightarrow> stack_ref \<Rightarrow> composite_test_event list" where
  "stackAt st RefBeforeEach = s_beforeEach st"
| "stackAt st RefTestBody = s_testBody st"
| "stackAt st RefAfterEach = s_afterEach st"

text \<open>\<open>currentStack.push(...xs)\<close>\<close>

definition pushCurrent :: "partition_state \<Rightarrow> composite_test_event list \<Rightarrow> partition_state" where
  "pushCurrent st xs =
     (case currentStack st of
        RefBeforeEach \<Rightarrow> st\<lparr> s_beforeEach := s_beforeEach st @ xs \<rparr>
      | RefTestBody \<Rightarrow> st\<lparr> s_testBody := s_testBody st @ xs \<rparr>
      | RefAfterEach \<Rightarrow> st\<lparr> s_afterEach := s_afterEach st @ xs \<rparr>)"

text \<open>\<open>currentStack.push(...nonStepStack.splice(0, nonStepStack.length))\<close>\<close>

definition flushNonSteps :: "partition_state \<Rightarrow> partition_state" where
  "flushNonSteps st = (pushCurrent st (nonStepStack st))\<lparr> nonStepStack := [] \<rparr>"

text \<open>\<open>!e.event.hook\<close>: the hook is absent or the empty string.\<close>

definition noHook :: "string option \<Rightarrow> bool" where
  "noHook h = (h = None \<or> h = Some [])"

text \<open>The body of the loop \<open>for (let e of allEvents)\<close>.\<close>

fun processEvent :: "partition_state \<Rightarrow> composite_test_event \<Rightarrow> partition_state" where
  "processEvent st (StepEvent t ev) =
     (let (stackChanged, target) =
            (if a_hook ev = Some ''beforeEach'' then (currentStack st \<noteq> RefBeforeEach, RefBeforeEach)
             else if a_hook ev = Some ''afterEach'' then (currentStack st \<noteq> RefAfterEach, RefAfterEach)
             else if noHook (a_hook ev) then (currentStack st \<noteq> RefTestBody, RefTestBody)
             else (False, currentStack st));
          st1 = st\<lparr> currentStack := target \<rparr>;
          st2 = (if \<not> stackChanged then flushNonSteps st1 else st1);
          st3 = pushCurrent st2 [StepEvent t ev]
      in flushNonSteps st3)"
| "processEvent st e =
     (if length (stackAt st (currentStack st)) \<noteq> 0
      then st\<lparr> nonStepStack := nonStepStack st @ [e] \<rparr>
      else st)"

text \<open>The statements after the loop, and the object returned.\<close>

definition finish :: "partition_state \<Rightarrow> test_sections" where
  "finish st =
     (let ns = nonStepStack st;
          b = s_beforeEach st; t = s_testBody st; a = s_afterEach st
      in if length ns \<noteq> 0 then
           (if length a \<noteq> 0 then \<lparr> beforeEach = b, testBody = t, afterEach = a @ ns \<rparr>
            else if length t \<noteq> 0 then \<lparr> beforeEach = b, testBody = t @ ns, afterEach = a \<rparr>
            else if length b \<noteq> 0 then \<lparr> beforeEach = b @ ns, testBody = t, afterEach = a \<rparr>
            else \<lparr> beforeEach = b, testBody = t, afterEach = a \<rparr>)
         else \<lparr> beforeEach = b, testBody = t, afterEach = a \<rparr>)"

definition partitionEvents :: "composite_test_event list \<Rightarrow> test_sections" where
  "partitionEvents es = finish (foldl processEvent initialState es)"

definition useGetTestSections :: "app_state \<Rightarrow> rat \<Rightarrow> test_step list \<Rightarrow> test_sections" where
  "useGetTestSections st startTime steps = partitionEvents (allEvents st startTime steps)"

subsection \<open>Notions used in the statements\<close>

text \<open>The sections in hook order as one sequence, for a result and for a state of the loop.\<close>

definition sectionEvents :: "test_sections \<Rightarrow> composite_test_event list" where
  "sectionEvents r = beforeEach r @ testBody r @ afterEach r"

definition stateEvents :: "partition_state \<Rightarrow> composite_test_event list" where
  "stateEvents st = s_beforeEach st @ s_testBody st @ s_afterEach st"

definition loopSections :: "partition_state \<Rightarrow> test_sections" where
  "loopSections st =
     \<lparr> beforeEach = s_beforeEach st, testBody = s_testBody st, afterEach = s_afterEach st \<rparr>"

text \<open>The test \<open>currentStack.length !== 0\<close>, and the events a state holds.\<close>

definition currentNonEmpty :: "partition_state \<Rightarrow> bool" where
  "currentNonEmpty st = (stackAt st (currentStack st) \<noteq> [])"

definition heldEvents :: "partition_state \<Rightarrow> composite_test_event multiset" where
  "heldEvents st = mset (stateEvents st) + mset (nonStepStack st)"

text \<open>
  Trailing events as the specification words them: appended to the first non-empty
  section in the order \<open>afterEach\<close>, \<open>testBody\<close>, \<open>beforeEach\<close>.
\<close>

definition appendTrailing :: "test_sections \<Rightarrow> composite_test_event list \<Rightarrow> test_sections" where
  "appendTrailing r ns =
     (if afterEach r \<noteq> [] then r\<lparr> afterEach := afterEach r @ ns \<rparr>
      else if testBody r \<noteq> [] then r\<lparr> testBody := testBody r @ ns \<rparr>
      else if beforeEach r \<noteq> [] then r\<lparr> beforeEach := beforeEach r @ ns \<rparr>
      else r)"

text \<open>Forgetting the enqueue annotation stored on a step event.\<close>

definition eraseEnqueueStep :: "annotated_test_step \<Rightarrow> annotated_test_step" where
  "eraseEnqueueStep a = a\<lparr> annotations := (annotations a)\<lparr> ann_enqueue := None \<rparr> \<rparr>"

fun eraseEnqueue :: "composite_test_event \<Rightarrow> composite_test_event" where
  "eraseEnqueue (StepEvent t a) = StepEvent t (eraseEnqueueStep a)"
| "eraseEnqueue e = e"

definition mapSections ::
  "(composite_test_event \<Rightarrow> composite_test_event) \<Rightarrow> test_sections \<Rightarrow> test_sections" where
  "mapSections f r =
     \<lparr> beforeEach = map f (beforeEach r), testBody = map f (testBody r),
       afterEach = map f (afterEach r) \<rparr>"

definition mapState ::
  "(composite_test_event \<Rightarrow> composite_test_event) \<Rightarrow> partition_state \<Rightarrow> partition_state" where
  "mapState f st =
     \<lparr> s_beforeEach = map f (s_beforeEach st), s_testBody = map f (s_testBody st),
       s_afterEach = map f (s_afterEach st), currentStack = currentStack st,
       nonStepStack = map f (nonStepStack st) \<rparr>"

text \<open>
  The section a step event is pushed to when the current section is \<open>c\<close> (an event
  that is not a step leaves the current section as it is), and the current section
  after a sequence of events.
\<close>

fun stepTarget :: "stack_ref \<Rightarrow> composite_test_event \<Rightarrow> stack_ref" where
  "stepTarget c (StepEvent t ev) =
     (if a_hook ev = Some ''beforeEach'' then RefBeforeEach
      else if a_hook ev = Some ''afterEach'' then RefAfterEach
      else if noHook (a_hook ev) then RefTestBody
      else c)"
| "stepTarget c e = c"














subsection \<open>Sample inputs\<close>

definition noAnnotations :: app_state where
  "noAnnotations = \<lparr> navigationEvents = [], annotationsEnqueue = [], annotationsEnd = [],
     annotationsStart = [], requestSummaries = [] \<rparr>"

definition annotationAt :: "string \<Rightarrow> rat \<Rightarrow> annotation" where
  "annotationAt i t = \<lparr> message = \<lparr> msg_id = i, url = None \<rparr>, time = t \<rparr>"

definition xhrSummary :: "string \<Rightarrow> rat \<Rightarrow> request_summary" where
  "xhrSummary i t = \<lparr> req_id = i, cause = ''xhr'', end_time = Some t \<rparr>"

text \<open>A store with requests ending, and navigation annotations, at the given times.\<close>

definition sampleStore :: "rat list \<Rightarrow> rat list \<Rightarrow> app_state" where
  "sampleStore netTimes navTimes =
     \<lparr> navigationEvents = map (annotationAt ''nav'') navTimes, annotationsEnqueue = [],
       annotationsEnd = [], annotationsStart = [],
       requestSummaries = map (xhrSummary ''req'') netTimes \<rparr>"

text \<open>A step with identifier, relative start, duration and hook; an \<open>assert\<close> step.\<close>

definition plainStep :: "string \<Rightarrow> rat \<Rightarrow> rat \<Rightarrow> string option \<Rightarrow> test_step" where
  "plainStep i rel dur h =
     \<lparr> step_id = i, name = ''get'', duration = Some dur, relativeStartTime = rel,
       error = False, hook = h \<rparr>"


section \<open>Properties\<close>

subsection \<open>The loop keeps every event it has accepted\<close>

lemma processEvent_nonstep:
  "\<not> isStep e \<Longrightarrow> processEvent st e =
     (if currentNonEmpty st then st\<lparr> nonStepStack := nonStepStack st @ [e] \<rparr> else st)"
  by (cases e) (simp_all add: currentNonEmpty_def)

lemma mset_pushCurrent:
  "mset (stateEvents (pushCurrent st xs)) = mset (stateEvents st) + mset xs"
  by (cases "currentStack st") (simp_all add: pushCurrent_def stateEvents_def)

lemma pushCurrent_fields [simp]:
  "nonStepStack (pushCurrent st xs) = nonStepStack st"
  "currentStack (pushCurrent st xs) = currentStack st"
  by (cases "currentStack st"; simp add: pushCurrent_def)+

lemma stackAt_pushCurrent [simp]:
  "stackAt (pushCurrent st xs) (currentStack st) = stackAt st (currentStack st) @ xs"
  by (cases "currentStack st"; simp add: pushCurrent_def)

lemma mset_flushNonSteps:
  "mset (stateEvents (flushNonSteps st)) = mset (stateEvents st) + mset (nonStepStack st)"
  by (cases "currentStack st") (simp_all add: flushNonSteps_def pushCurrent_def stateEvents_def)

lemma flushNonSteps_fields [simp]:
  "nonStepStack (flushNonSteps st) = []"
  "currentStack (flushNonSteps st) = currentStack st"
  by (simp_all add: flushNonSteps_def)

lemma stackAt_flushNonSteps [simp]:
  "stackAt (flushNonSteps st) (currentStack st) = stackAt st (currentStack st) @ nonStepStack st"
  by (cases "currentStack st"; simp add: flushNonSteps_def pushCurrent_def)

lemma stateEvents_currentStack_update [simp]:
  "stateEvents (st\<lparr> currentStack := c \<rparr>) = stateEvents st"
  by (simp add: stateEvents_def)

lemma processEvent_step_mset:
  "isStep e \<Longrightarrow>
     mset (stateEvents (processEvent st e)) = mset (stateEvents st) + mset (nonStepStack st) + {#e#}"
  by (cases e) (simp_all add: Let_def mset_flushNonSteps mset_pushCurrent split: if_splits)

lemma processEvent_step_pending:
  "isStep e \<Longrightarrow> nonStepStack (processEvent st e) = []"
  by (cases e) (simp_all add: Let_def split: if_splits)

lemma processEvent_step_nonempty:
  "isStep e \<Longrightarrow> currentNonEmpty (processEvent st e)"
proof (cases e)
  case (StepEvent t ev)
  have push: "currentNonEmpty (flushNonSteps (pushCurrent s [x]))" for s x
    by (cases "currentStack s") (simp_all add: currentNonEmpty_def flushNonSteps_def pushCurrent_def)
  show ?thesis
    unfolding StepEvent processEvent.simps Let_def split_def by (rule push)
qed simp_all

lemma currentNonEmpty_pending_update [simp]:
  "currentNonEmpty (st\<lparr> nonStepStack := ns \<rparr>) = currentNonEmpty st"
  by (cases "currentStack st") (simp_all add: currentNonEmpty_def)

lemma processEvent_keeps_nonempty:
  "currentNonEmpty st \<Longrightarrow> currentNonEmpty (processEvent st e)"
proof (cases "isStep e")
  case True
  then show ?thesis by (rule processEvent_step_nonempty)
next
  case False
  assume "currentNonEmpty st"
  with False show ?thesis
    by (cases "currentStack st") (simp_all add: processEvent_nonstep currentNonEmpty_def)
qed

lemma heldEvents_processEvent:
  "isStep e \<or> currentNonEmpty st \<Longrightarrow> heldEvents (processEvent st e) = heldEvents st + {#e#}"
proof (cases "isStep e")
  case True
  then show ?thesis
    by (simp add: heldEvents_def processEvent_step_mset processEvent_step_pending)
next
  case False
  assume "isStep e \<or> currentNonEmpty st"
  with False show ?thesis
    by (simp add: heldEvents_def processEvent_nonstep stateEvents_def)
qed

lemma heldEvents_loop:
  "currentNonEmpty st \<Longrightarrow>
     heldEvents (foldl processEvent st es) = heldEvents st + mset es \<and>
     currentNonEmpty (foldl processEvent st es)"
proof (induction es arbitrary: st)
  case Nil
  then show ?case by simp
next
  case (Cons e es)
  from Cons.prems have ne: "currentNonEmpty (processEvent st e)"
    by (rule processEvent_keeps_nonempty)
  from Cons.IH [OF ne] Cons.prems show ?case
    by (simp add: heldEvents_processEvent)
qed

lemma loop_skips_leading_nonsteps:
  "\<not> currentNonEmpty st \<Longrightarrow>
     foldl processEvent st es = foldl processEvent st (dropWhile (\<lambda>e. \<not> isStep e) es)"
  by (induction es) (simp_all add: processEvent_nonstep)

lemma initialState_empty [simp]:
  "\<not> currentNonEmpty initialState" "heldEvents initialState = {#}"
  by (simp_all add: initialState_def currentNonEmpty_def heldEvents_def stateEvents_def)

lemma heldEvents_from_start:
  "heldEvents (foldl processEvent initialState es) = mset (dropWhile (\<lambda>e. \<not> isStep e) es)"
proof (cases "dropWhile (\<lambda>e. \<not> isStep e) es")
  case Nil
  have "foldl processEvent initialState es = foldl processEvent initialState []"
    using loop_skips_leading_nonsteps [of initialState es] by (simp only: Nil initialState_empty not_False_eq_True)
  then show ?thesis by (simp add: Nil del: dropWhile_eq_Nil_conv)
next
  case (Cons e es')
  then have "isStep e"
    using hd_dropWhile [of "\<lambda>e. \<not> isStep e" es] by force
  then have ne: "currentNonEmpty (processEvent initialState e)"
    and held: "heldEvents (processEvent initialState e) = {#e#}"
    by (simp_all add: processEvent_step_nonempty heldEvents_processEvent)
  have "foldl processEvent initialState es = foldl processEvent (processEvent initialState e) es'"
    using loop_skips_leading_nonsteps [of initialState es] Cons by simp
  with heldEvents_loop [OF ne, of es'] held Cons show ?thesis by simp
qed

lemma pending_needs_nonempty_loop:
  "nonStepStack st = [] \<or> currentNonEmpty st \<Longrightarrow>
     nonStepStack (foldl processEvent st es) = [] \<or> currentNonEmpty (foldl processEvent st es)"
proof (induction es arbitrary: st)
  case Nil
  then show ?case by simp
next
  case (Cons e es)
  have "nonStepStack (processEvent st e) = [] \<or> currentNonEmpty (processEvent st e)"
  proof (cases "isStep e")
    case True
    then show ?thesis by (simp add: processEvent_step_pending)
  next
    case False
    with Cons.prems show ?thesis
      by (auto simp add: processEvent_nonstep)
  qed
  from Cons.IH [OF this] show ?case by simp
qed

lemma currentNonEmpty_stateEvents:
  "currentNonEmpty st \<Longrightarrow> stateEvents st \<noteq> []"
  by (cases "currentStack st") (simp_all add: currentNonEmpty_def stateEvents_def)

lemma finish_mset:
  "nonStepStack st = [] \<or> currentNonEmpty st \<Longrightarrow>
     mset (sectionEvents (finish st)) = heldEvents st"
  using currentNonEmpty_stateEvents [of st]
  by (auto simp add: finish_def sectionEvents_def heldEvents_def stateEvents_def Let_def)

lemma partitionEvents_mset:
  "mset (sectionEvents (partitionEvents es)) = mset (dropWhile (\<lambda>e. \<not> isStep e) es)"
  unfolding partitionEvents_def
  using pending_needs_nonempty_loop [of initialState es]
  by (simp add: finish_mset heldEvents_from_start initialState_def [THEN arg_cong, of nonStepStack])

subsection \<open>The sort permutes; every step reaches a section\<close>

lemma countRun_splits:
  "countRun descending previous cs = (run, remaining) \<Longrightarrow> run @ remaining = cs"
proof (induction cs arbitrary: previous run remaining)
  case Nil
  then show ?case by simp
next
  case (Cons c cs)
  show ?case
  proof (cases "if descending then 0 \<le> compareEvents c previous else compareEvents c previous < 0")
    case True
    with Cons.prems show ?thesis by (auto simp add: Let_def split: if_splits)
  next
    case False
    obtain run' remaining' where r: "countRun descending c cs = (run', remaining')"
      by (cases "countRun descending c cs")
    with False Cons.prems have "run = c # run'" "remaining = remaining'"
      by (auto simp add: Let_def split: if_splits)
    with Cons.IH [OF r] show ?thesis by simp
  qed
qed

lemma mset_countAndMakeRun:
  "countAndMakeRun xs = (run, remaining) \<Longrightarrow> mset run + mset remaining = mset xs"
proof (induction xs rule: countAndMakeRun.induct)
  case 1
  then show ?case by simp
next
  case (2 x)
  then show ?case by auto
next
  case (3 low high rest)
  obtain run' remaining' where r:
    "countRun (compareEvents high low < 0) high rest = (run', remaining')"
    by (cases "countRun (compareEvents high low < 0) high rest")
  from countRun_splits [OF r] have "mset rest = mset run' + mset remaining'"
    by (metis mset_append)
  with 3 r show ?case
    by (auto simp add: Let_def)
qed

lemma mset_binaryInsert: "mset (binaryInsert pivot xs) = add_mset pivot (mset xs)"
proof (induction pivot xs rule: binaryInsert.induct)
  case (1 pivot xs)
  show ?case
  proof (cases "xs = []")
    case True
    then show ?thesis by (simp add: binaryInsert.simps)
  next
    case False
    let ?mid = "length xs div 2"
    have split: "mset (take n xs) + mset (drop n xs) = mset xs" for n
      by (metis append_take_drop_id mset_append)
    show ?thesis
    proof (cases "compareEvents pivot (xs ! ?mid) < 0")
      case True
      with False "1.IH"(1) have "mset (binaryInsert pivot (take ?mid xs)) =
          add_mset pivot (mset (take ?mid xs))" by simp
      with True False split [of ?mid] show ?thesis
        by (subst binaryInsert.simps) (simp add: Let_def)
    next
      case c: False
      with False "1.IH"(2) have "mset (binaryInsert pivot (drop (Suc ?mid) xs)) =
          add_mset pivot (mset (drop (Suc ?mid) xs))" by simp
      with c False split [of "Suc ?mid"] show ?thesis
        by (subst binaryInsert.simps) (simp add: Let_def)
    qed
  qed
qed

lemma mset_insert_all:
  "mset (foldl (\<lambda>sorted pivot. binaryInsert pivot sorted) run ps) = mset run + mset ps"
  by (induction ps arbitrary: run) (simp_all add: mset_binaryInsert)

lemma sortEvents_Nil [simp]: "sortEvents [] = []"
  by (simp add: sortEvents_def)

lemma mset_sortEvents: "mset (sortEvents xs) = mset xs"
proof -
  obtain run remaining where r: "countAndMakeRun xs = (run, remaining)"
    by (cases "countAndMakeRun xs")
  with mset_countAndMakeRun [OF r] show ?thesis
    by (simp add: sortEvents_def mset_insert_all)
qed

lemma set_sortEvents: "set (sortEvents xs) = set xs"
  using mset_sortEvents [of xs] by (metis set_mset_mset)

lemma filter_isStep_dropWhile:
  "filter isStep (dropWhile (\<lambda>e. \<not> isStep e) xs) = filter isStep xs"
  by (induction xs) simp_all

lemma length_annotateFrom: "length (annotateFrom st startTime i ss) = length ss"
  by (induction ss arbitrary: i) simp_all

lemma isStep_toStepEvent [simp]: "isStep (toStepEvent a)"
  by (simp add: toStepEvent_def)

lemma isStep_toNetworkEvent [simp]: "\<not> isStep (toNetworkEvent n)"
  by (simp add: toNetworkEvent_def)

lemma filter_isStep_network [simp]: "filter isStep (networkDataByTime r ns) = []"
  by (simp add: networkDataByTime_def filter_empty_conv)

lemma filter_isStep_navigation [simp]: "filter isStep (navigationEventsByTime r es) = []"
  by (simp add: navigationEventsByTime_def filter_empty_conv)

lemma filter_isStep_steps [simp]: "filter isStep (map toStepEvent as) = map toStepEvent as"
  by (simp add: filter_id_conv)

lemma steps_of_allEvents:
  "filter_mset isStep (mset (allEvents st startTime steps)) = mset (stepsByTime st startTime steps)"
proof -
  let ?r = "stepTimes (annotatedSteps st startTime steps)"
  let ?xs = "networkDataByTime ?r (requestSummaries st) @
             map toStepEvent (annotatedSteps st startTime steps) @
             navigationEventsByTime ?r (navigationEvents st)"
  have "filter_mset isStep (mset (allEvents st startTime steps)) = mset (filter isStep ?xs)"
    by (simp only: allEvents_def Let_def mset_sortEvents mset_filter)
  also have "filter isStep ?xs = stepsByTime st startTime steps"
    by (simp add: stepsByTime_def)
  finally show ?thesis .
qed

lemma steps_of_sections:
  "mset (filter isStep (sectionEvents (useGetTestSections st startTime steps))) =
     mset (stepsByTime st startTime steps)"
proof -
  let ?es = "allEvents st startTime steps"
  have "mset (filter isStep (sectionEvents (partitionEvents ?es))) =
          filter_mset isStep (mset (dropWhile (\<lambda>e. \<not> isStep e) ?es))"
    by (simp only: mset_filter partitionEvents_mset)
  also have "\<dots> = mset (filter isStep (dropWhile (\<lambda>e. \<not> isStep e) ?es))"
    by simp
  also have "\<dots> = filter_mset isStep (mset ?es)"
    by (simp only: filter_isStep_dropWhile mset_filter)
  finally show ?thesis
    by (simp only: useGetTestSections_def steps_of_allEvents)
qed

lemma index_annotateFrom:
  "a \<in> set (annotateFrom st startTime i ss) \<Longrightarrow> i \<le> index a"
proof (induction ss arbitrary: i)
  case Nil
  then show ?case by simp
next
  case (Cons s ss)
  from Cons.prems consider "a = annotateStep st startTime s i"
    | "a \<in> set (annotateFrom st startTime (Suc i) ss)" by auto
  then show ?case
  proof cases
    case 1
    then show ?thesis by (simp add: annotateStep_def Let_def)
  next
    case 2
    from Cons.IH [OF this] show ?thesis by simp
  qed
qed

lemma distinct_annotateFrom: "distinct (annotateFrom st startTime i ss)"
proof (induction ss arbitrary: i)
  case Nil
  then show ?case by simp
next
  case (Cons s ss)
  have "annotateStep st startTime s i \<notin> set (annotateFrom st startTime (Suc i) ss)"
  proof
    assume "annotateStep st startTime s i \<in> set (annotateFrom st startTime (Suc i) ss)"
    from index_annotateFrom [OF this] show False
      by (simp add: annotateStep_def Let_def)
  qed
  with Cons.IH show ?case by simp
qed

lemma distinct_stepsByTime: "distinct (stepsByTime st startTime steps)"
  by (simp add: stepsByTime_def annotatedSteps_def distinct_map distinct_annotateFrom
      inj_on_def toStepEvent_def)

text \<open>C1\<close>

theorem each_step_once:
  "mset (filter isStep (sectionEvents (useGetTestSections st startTime steps))) =
     mset (stepsByTime st startTime steps) \<and>
   length (filter isStep (sectionEvents (useGetTestSections st startTime steps))) = length steps \<and>
   distinct (filter isStep (sectionEvents (useGetTestSections st startTime steps)))"
proof -
  let ?out = "filter isStep (sectionEvents (useGetTestSections st startTime steps))"
  have m: "mset ?out = mset (stepsByTime st startTime steps)"
    by (rule steps_of_sections)
  from m have "length ?out = length (stepsByTime st startTime steps)"
    by (rule mset_eq_length)
  then have l: "length ?out = length steps"
    by (simp add: stepsByTime_def annotatedSteps_def length_annotateFrom)
  have d: "distinct ?out"
    using mset_eq_imp_distinct_iff [OF m] distinct_stepsByTime [of st startTime steps] by blast
  from m l d show ?thesis by simp
qed

subsection \<open>Steps named \<open>assert\<close>\<close>




subsection \<open>The window of the steps\<close>

lemma foldl_timesStep:
  "foldl timesStep acc as =
     \<lparr> range_min = foldl minBound (range_min acc) (map absoluteStartTime as),
       range_max = foldl max (range_max acc) (map absoluteEndTime as) \<rparr>"
  by (induction as arbitrary: acc) (simp_all add: timesStep_def)

lemma foldl_max_Max: "foldl max (m::rat) xs = Max (set (m # xs))"
proof (induction xs arbitrary: m)
  case Nil
  then show ?case by simp
next
  case (Cons x xs)
  have "Max (insert (max m x) (set xs)) = Max (insert m (insert x (set xs)))"
    by (cases "set xs = {}") (simp_all add: max.assoc)
  with Cons.IH [of "max m x"] show ?case by simp
qed

lemma foldl_minBound_Finite: "foldl minBound (Finite m) xs = Finite (Min (set (m # xs)))"
proof (induction xs arbitrary: m)
  case Nil
  then show ?case by simp
next
  case (Cons x xs)
  have "Min (insert (min m x) (set xs)) = Min (insert m (insert x (set xs)))"
    by (cases "set xs = {}") (simp_all add: min.assoc)
  with Cons.IH [of "min m x"] show ?case by simp
qed

lemma foldl_minBound_Infinity:
  "foldl minBound Infinity xs = (if xs = [] then Infinity else Finite (Min (set xs)))"
  by (cases xs) (simp_all add: foldl_minBound_Finite)

lemma stepTimes_eq:
  "stepTimes as =
     \<lparr> range_min = (if as = [] then Infinity else Finite (Min (set (map absoluteStartTime as)))),
       range_max = Max (set (0 # map absoluteEndTime as)) \<rparr>"
  by (simp add: stepTimes_def foldl_timesStep foldl_max_Max foldl_minBound_Infinity)

lemma no_steps_no_events: "allEvents st startTime [] = []"
  by (simp add: allEvents_def annotatedSteps_def stepTimes_def networkDataByTime_def
      navigationEventsByTime_def keepSummary_def isDuringSteps_def Let_def split: option.splits)

text \<open>
  Claim C4, as the code has it. The lower bound of the window is the least
  \<open>absoluteStartTime\<close> of the steps, \<open>Infinity\<close> without steps. The upper bound is
  the greatest of 0 and the stored \<open>absoluteEndTime\<close> of the steps, and the stored
  value is the end after the normalization, the end before it minus one. A time is in
  the window iff it is at least the lower and strictly below the upper bound. Without
  steps the window is \<open>[Infinity, 0)\<close>, no time is in it, and the three sections are
  empty whatever the network and navigation input.
\<close>

theorem window_of_steps:
  "stepTimes (annotatedSteps st startTime steps) =
     \<lparr> range_min = (if steps = [] then Infinity
                    else Finite (Min (set (map absoluteStartTime (annotatedSteps st startTime steps))))),
       range_max = Max (set (0 # map absoluteEndTime (annotatedSteps st startTime steps))) \<rparr> \<and>
   absoluteEndTime (annotateStep st startTime s i) =
     dsub (if name s = ''assert'' \<and> \<not> error s then dadd (resolvedStart st startTime s) 1
           else provisionalEnd st startTime s) 1 \<and>
   isDuringSteps r t = (leBound (range_min r) t \<and> t < range_max r) \<and>
   stepTimes (annotatedSteps st startTime []) = \<lparr> range_min = Infinity, range_max = 0 \<rparr> \<and>
   isDuringSteps (stepTimes (annotatedSteps st startTime [])) t = False \<and>
   useGetTestSections st startTime [] = \<lparr> beforeEach = [], testBody = [], afterEach = [] \<rparr>"
proof -
  have e: "(annotatedSteps st startTime steps = []) = (steps = [])"
    by (cases steps) (simp_all add: annotatedSteps_def)
  have 1: "stepTimes (annotatedSteps st startTime steps) =
     \<lparr> range_min = (if steps = [] then Infinity
                    else Finite (Min (set (map absoluteStartTime (annotatedSteps st startTime steps))))),
       range_max = Max (set (0 # map absoluteEndTime (annotatedSteps st startTime steps))) \<rparr>"
    by (simp only: stepTimes_eq [of "annotatedSteps st startTime steps"] e)
  have 2: "isDuringSteps r t = (leBound (range_min r) t \<and> t < range_max r)"
    by (simp add: isDuringSteps_def)
  have 3: "stepTimes (annotatedSteps st startTime []) = \<lparr> range_min = Infinity, range_max = 0 \<rparr>"
    by (simp add: annotatedSteps_def stepTimes_def)
  have 4: "isDuringSteps (stepTimes (annotatedSteps st startTime [])) t = False"
    by (simp add: 3 isDuringSteps_def)
  have 5: "useGetTestSections st startTime [] = \<lparr> beforeEach = [], testBody = [], afterEach = [] \<rparr>"
    by (simp add: useGetTestSections_def no_steps_no_events partitionEvents_def finish_def
        initialState_def)
  have 6: "absoluteEndTime (annotateStep st startTime s i) =
     dsub (if name s = ''assert'' \<and> \<not> error s then dadd (resolvedStart st startTime s) 1
           else provisionalEnd st startTime s) 1"
    by (simp add: annotateStep_def Let_def)
  from 1 6 2 3 4 5 show ?thesis by (intro conjI)
qed

text \<open>
  The upper bound is not the greatest provisional end: one step of duration 5 starting
  at 100 has the provisional end 105, the window ends at 104, and the time 104 is
  outside it.
\<close>

theorem window_max_counterexample:
  "Max (set (map (provisionalEnd noAnnotations 100) [plainStep ''s1'' 0 5 None])) = 105 \<and>
   range_max (stepTimes (annotatedSteps noAnnotations 100 [plainStep ''s1'' 0 5 None])) = 104 \<and>
   \<not> isDuringSteps (stepTimes (annotatedSteps noAnnotations 100 [plainStep ''s1'' 0 5 None])) 104"
  by code_simp

subsection \<open>The sections hold the accepted events, each once\<close>

lemma mset_dropWhile_subset: "mset (dropWhile P xs) \<subseteq># mset xs"
proof -
  have "mset xs = mset (takeWhile P xs) + mset (dropWhile P xs)"
    by (simp only: mset_append [symmetric] takeWhile_dropWhile_id)
  then show ?thesis by simp
qed

lemma sections_subset_events:
  "mset (sectionEvents (partitionEvents es)) \<subseteq># mset es"
  by (simp only: partitionEvents_mset mset_dropWhile_subset)

lemma distinct_sortEvents: "distinct (sortEvents xs) = distinct xs"
  by (rule mset_eq_imp_distinct_iff) (rule mset_sortEvents)

lemma distinct_networkDataByTime:
  "distinct ns \<Longrightarrow> distinct (networkDataByTime r ns)"
  by (simp add: networkDataByTime_def distinct_map inj_on_def toNetworkEvent_def)

lemma distinct_navigationEventsByTime:
  "distinct es \<Longrightarrow> distinct (navigationEventsByTime r es)"
  by (auto simp add: navigationEventsByTime_def distinct_map inj_on_def)

lemma distinct_allEvents:
  assumes "distinct (requestSummaries st)" and "distinct (navigationEvents st)"
  shows "distinct (allEvents st startTime steps)"
proof -
  let ?r = "stepTimes (annotatedSteps st startTime steps)"
  have n: "distinct (networkDataByTime ?r (requestSummaries st))"
    using assms(1) by (rule distinct_networkDataByTime)
  have v: "distinct (navigationEventsByTime ?r (navigationEvents st))"
    using assms(2) by (rule distinct_navigationEventsByTime)
  have s: "distinct (map toStepEvent (annotatedSteps st startTime steps))"
    using distinct_stepsByTime [of st startTime steps] by (simp only: stepsByTime_def)
  have "distinct (networkDataByTime ?r (requestSummaries st) @
                  map toStepEvent (annotatedSteps st startTime steps) @
                  navigationEventsByTime ?r (navigationEvents st))"
    using n v s
    by (auto simp add: networkDataByTime_def navigationEventsByTime_def toStepEvent_def
        toNetworkEvent_def)
  then show ?thesis
    by (simp only: allEvents_def Let_def distinct_sortEvents)
qed

text \<open>
  Claim C5, as the code has it. The three sections together hold exactly the events of
  the sorted sequence from its first step event on, each as often as it occurs there:
  every step event, and every retained network or navigation event that does not sort
  before the first step event. Events that sort before the first step event are in no
  section. Where the summaries and the navigation annotations are pairwise distinct, no
  event occurs twice and the sections are pairwise disjoint.
\<close>

theorem sections_hold_accepted_events_once:
  "mset (sectionEvents (useGetTestSections st startTime steps)) =
     mset (dropWhile (\<lambda>e. \<not> isStep e) (allEvents st startTime steps)) \<and>
   mset (sectionEvents (useGetTestSections st startTime steps)) \<subseteq>#
     mset (allEvents st startTime steps) \<and>
   (distinct (requestSummaries st) \<and> distinct (navigationEvents st) \<longrightarrow>
      distinct (sectionEvents (useGetTestSections st startTime steps)) \<and>
      set (beforeEach (useGetTestSections st startTime steps)) \<inter>
        set (testBody (useGetTestSections st startTime steps)) = {} \<and>
      set (beforeEach (useGetTestSections st startTime steps)) \<inter>
        set (afterEach (useGetTestSections st startTime steps)) = {} \<and>
      set (testBody (useGetTestSections st startTime steps)) \<inter>
        set (afterEach (useGetTestSections st startTime steps)) = {})"
proof -
  let ?es = "allEvents st startTime steps"
  let ?R = "useGetTestSections st startTime steps"
  have m: "mset (sectionEvents ?R) = mset (dropWhile (\<lambda>e. \<not> isStep e) ?es)"
    by (simp only: useGetTestSections_def partitionEvents_mset)
  have sub: "mset (sectionEvents ?R) \<subseteq># mset ?es"
    by (simp only: useGetTestSections_def sections_subset_events)
  have d: "distinct (sectionEvents ?R)"
    if "distinct (requestSummaries st) \<and> distinct (navigationEvents st)"
  proof -
    from that have "distinct ?es" by (simp add: distinct_allEvents)
    then have "distinct (dropWhile (\<lambda>e. \<not> isStep e) ?es)" by (rule distinct_dropWhile)
    with mset_eq_imp_distinct_iff [OF m] show ?thesis by blast
  qed
  have disj: "set (beforeEach ?R) \<inter> set (testBody ?R) = {} \<and>
      set (beforeEach ?R) \<inter> set (afterEach ?R) = {} \<and>
      set (testBody ?R) \<inter> set (afterEach ?R) = {}" if "distinct (sectionEvents ?R)"
    using that by (auto simp add: sectionEvents_def)
  from m sub d disj show ?thesis by blast
qed

theorem sections_hold_accepted_events_once_witness:
  "distinct (requestSummaries (sampleStore [3, 7] [8])) \<and>
   distinct (navigationEvents (sampleStore [3, 7] [8])) \<and>
   distinct (sectionEvents (useGetTestSections (sampleStore [3, 7] [8]) 0
     [plainStep ''s1'' 0 5 (Some ''beforeEach''), plainStep ''s2'' 5 5 None])) \<and>
   set (beforeEach (useGetTestSections (sampleStore [3, 7] [8]) 0
     [plainStep ''s1'' 0 5 (Some ''beforeEach''), plainStep ''s2'' 5 5 None])) \<inter>
   set (testBody (useGetTestSections (sampleStore [3, 7] [8]) 0
     [plainStep ''s1'' 0 5 (Some ''beforeEach''), plainStep ''s2'' 5 5 None])) = {}"
proof -
  have h: "distinct (requestSummaries (sampleStore [3, 7] [8])) \<and>
           distinct (navigationEvents (sampleStore [3, 7] [8]))"
    by (simp add: sampleStore_def xhrSummary_def annotationAt_def)
  from sections_hold_accepted_events_once [of "sampleStore [3, 7] [8]" 0
      "[plainStep ''s1'' 0 5 (Some ''beforeEach''), plainStep ''s2'' 5 5 None]"] h
  show ?thesis by blast
qed

text \<open>
  A retained event that is in no section: a request ending at the start time of the only
  step passes the cause and window filters, sorts before the step (the comparator
  returns 0 and the sort is stable), and is dropped.
\<close>

theorem retained_event_dropped_counterexample:
  "keepSummary (stepTimes (annotatedSteps (sampleStore [100] []) 100 [plainStep ''s1'' 0 5 None]))
     (xhrSummary ''req'' 100) \<and>
   NetworkEvent 100 (xhrSummary ''req'' 100) \<in>
     set (allEvents (sampleStore [100] []) 100 [plainStep ''s1'' 0 5 None]) \<and>
   NetworkEvent 100 (xhrSummary ''req'' 100) \<notin>
     set (sectionEvents (useGetTestSections (sampleStore [100] []) 100 [plainStep ''s1'' 0 5 None]))"
  by code_simp

subsection \<open>Events before the first step\<close>

lemma partition_drops_leading_nonsteps:
  assumes "\<forall>x\<in>set ns. \<not> isStep x"
  shows "partitionEvents (ns @ es) = partitionEvents es"
proof -
  from assms have "dropWhile (\<lambda>e. \<not> isStep e) (ns @ es) = dropWhile (\<lambda>e. \<not> isStep e) es"
    by (simp add: dropWhile_append)
  then have "foldl processEvent initialState (ns @ es) = foldl processEvent initialState es"
    using loop_skips_leading_nonsteps [of initialState "ns @ es"]
      loop_skips_leading_nonsteps [of initialState es]
    by (simp only: initialState_empty not_False_eq_True)
  then show ?thesis by (simp only: partitionEvents_def)
qed

lemma events_after_step_kept:
  assumes "isStep s"
  shows "mset (s # post) \<subseteq># mset (sectionEvents (partitionEvents (pre @ s # post)))"
proof -
  let ?P = "\<lambda>e. \<not> isStep e"
  have "dropWhile ?P (pre @ s # post) = dropWhile ?P pre @ s # post"
    using assms by (induction pre) simp_all
  then show ?thesis
    by (simp add: partitionEvents_mset)
qed

text \<open>
  Claim C6. A network or navigation event processed while the current section is empty
  leaves the state of the loop unchanged; processed while the current section is not
  empty, it is appended to the pending buffer. So the events sorted before the first step
  event do not change the result, and a step event and every event after it are kept.
\<close>

theorem nonstep_before_first_step_dropped:
  "(\<not> isStep e \<and> stackAt st (currentStack st) = [] \<longrightarrow> processEvent st e = st) \<and>
   (\<not> isStep e \<and> stackAt st (currentStack st) \<noteq> [] \<longrightarrow>
      processEvent st e = st\<lparr> nonStepStack := nonStepStack st @ [e] \<rparr>) \<and>
   ((\<forall>x\<in>set ns. \<not> isStep x) \<longrightarrow> partitionEvents (ns @ es) = partitionEvents es) \<and>
   (isStep s \<longrightarrow> mset (s # post) \<subseteq># mset (sectionEvents (partitionEvents (pre @ s # post))))"
  using partition_drops_leading_nonsteps [of ns es] events_after_step_kept [of s post pre]
  by (simp add: processEvent_nonstep currentNonEmpty_def)

theorem nonstep_before_first_step_dropped_witness:
  "\<not> isStep (NetworkEvent 5 (xhrSummary ''req'' 5)) \<and>
   stackAt initialState (currentStack initialState) = [] \<and>
   processEvent initialState (NetworkEvent 5 (xhrSummary ''req'' 5)) = initialState \<and>
   stackAt (processEvent initialState (toStepEvent (annotateStep noAnnotations 0 (plainStep ''s1'' 0 10 None) 0)))
     (currentStack (processEvent initialState (toStepEvent (annotateStep noAnnotations 0 (plainStep ''s1'' 0 10 None) 0)))) \<noteq> [] \<and>
   nonStepStack (processEvent
       (processEvent initialState (toStepEvent (annotateStep noAnnotations 0 (plainStep ''s1'' 0 10 None) 0)))
       (NetworkEvent 5 (xhrSummary ''req'' 5))) = [NetworkEvent 5 (xhrSummary ''req'' 5)] \<and>
   partitionEvents ([NetworkEvent 5 (xhrSummary ''req'' 5)] @
       [toStepEvent (annotateStep noAnnotations 0 (plainStep ''s1'' 0 10 None) 0)]) =
     partitionEvents [toStepEvent (annotateStep noAnnotations 0 (plainStep ''s1'' 0 10 None) 0)] \<and>
   isStep (toStepEvent (annotateStep noAnnotations 0 (plainStep ''s1'' 0 10 None) 0)) \<and>
   mset [toStepEvent (annotateStep noAnnotations 0 (plainStep ''s1'' 0 10 None) 0),
         NetworkEvent 5 (xhrSummary ''req'' 5)] \<subseteq>#
     mset (sectionEvents (partitionEvents ([] @
        toStepEvent (annotateStep noAnnotations 0 (plainStep ''s1'' 0 10 None) 0) #
        [NetworkEvent 5 (xhrSummary ''req'' 5)])))"
proof -
  let ?n = "NetworkEvent 5 (xhrSummary ''req'' 5)"
  let ?s = "toStepEvent (annotateStep noAnnotations 0 (plainStep ''s1'' 0 10 None) 0)"
  let ?st = "processEvent initialState ?s"
  have a: "\<not> isStep ?n" "stackAt initialState (currentStack initialState) = []" "isStep ?s"
    "\<forall>x\<in>set [?n]. \<not> isStep x"
    by (simp_all add: initialState_def toStepEvent_def)
  have b: "stackAt ?st (currentStack ?st) \<noteq> []"
    using processEvent_step_nonempty [OF a(3), of initialState] by (simp add: currentNonEmpty_def)
  from nonstep_before_first_step_dropped [of ?n initialState "[?n]" "[?s]" ?s "[?n]" "[]"] a
  have 1: "processEvent initialState ?n = initialState"
    and 3: "partitionEvents ([?n] @ [?s]) = partitionEvents [?s]"
    and 4: "mset [?s, ?n] \<subseteq># mset (sectionEvents (partitionEvents ([] @ ?s # [?n])))"
    by blast+
  from nonstep_before_first_step_dropped [of ?n ?st] a(1) b
  have 2: "processEvent ?st ?n = ?st\<lparr> nonStepStack := nonStepStack ?st @ [?n] \<rparr>" by blast
  have p: "nonStepStack ?st = []" by (rule processEvent_step_pending [OF a(3)])
  have 5: "nonStepStack (processEvent ?st ?n) = [?n]"
    by (simp add: 2 p del: processEvent.simps)
  from a(1,2,3) b 1 5 3 4 show ?thesis by (intro conjI)
qed

subsection \<open>Network events shown\<close>

lemma set_sections_subset: "set (sectionEvents (partitionEvents es)) \<subseteq> set es"
  using sections_subset_events [of es] by (metis set_mset_mono set_mset_mset)

lemma network_event_origin:
  assumes "NetworkEvent t n \<in> set (allEvents st startTime steps)"
  shows "n \<in> set (requestSummaries st) \<and>
         keepSummary (stepTimes (annotatedSteps st startTime steps)) n \<and> end_time n = Some t"
proof -
  let ?r = "stepTimes (annotatedSteps st startTime steps)"
  from assms have "NetworkEvent t n \<in> set (networkDataByTime ?r (requestSummaries st))"
    by (auto simp add: allEvents_def Let_def set_sortEvents toStepEvent_def navigationEventsByTime_def)
  then obtain n' where n': "n' \<in> set (requestSummaries st)" "keepSummary ?r n'"
      "toNetworkEvent n' = NetworkEvent t n"
    by (auto simp add: networkDataByTime_def)
  from n'(3) have "n' = n" by (simp add: toNetworkEvent_def)
  with n' show ?thesis
    by (auto simp add: toNetworkEvent_def keepSummary_def split: option.splits)
qed

lemma isDuringSteps_stepTimes:
  "isDuringSteps (stepTimes as) t =
     (as \<noteq> [] \<and> Min (set (map absoluteStartTime as)) \<le> t \<and>
      t < Max (set (0 # map absoluteEndTime as)))"
  by (simp add: isDuringSteps_def stepTimes_eq)

text \<open>
  Claim C7, as the code has it. A network event in a section comes from a summary of
  the input whose cause is \<open>xhr\<close> or \<open>fetch\<close>, whose end time is defined and is the
  time of the event, and whose end time is in the window the code computes: there is a
  step, the end time is at least the least \<open>absoluteStartTime\<close> and strictly below the
  greatest of 0 and the stored \<open>absoluteEndTime\<close> of the steps. A summary with another
  cause, without end time, or with an end time outside that window is in no section;
  the function is total on such input.
\<close>

theorem network_event_shown_only_if_kept:
  "(NetworkEvent t n \<in> set (sectionEvents (useGetTestSections st startTime steps)) \<longrightarrow>
      n \<in> set (requestSummaries st) \<and>
      (cause n = ''xhr'' \<or> cause n = ''fetch'') \<and>
      end_time n = Some t \<and>
      steps \<noteq> [] \<and>
      Min (set (map absoluteStartTime (annotatedSteps st startTime steps))) \<le> t \<and>
      t < Max (set (0 # map absoluteEndTime (annotatedSteps st startTime steps)))) \<and>
   ((cause n \<noteq> ''xhr'' \<and> cause n \<noteq> ''fetch'') \<or> end_time n = None \<or>
      (\<exists>t'. end_time n = Some t' \<and>
         (steps = [] \<or>
          t' < Min (set (map absoluteStartTime (annotatedSteps st startTime steps))) \<or>
          Max (set (0 # map absoluteEndTime (annotatedSteps st startTime steps))) \<le> t')) \<longrightarrow>
      NetworkEvent t n \<notin> set (sectionEvents (useGetTestSections st startTime steps)))"
proof -
  have e: "(annotatedSteps st startTime steps = []) = (steps = [])"
    by (cases steps) (simp_all add: annotatedSteps_def)
  have "n \<in> set (requestSummaries st) \<and>
      (cause n = ''xhr'' \<or> cause n = ''fetch'') \<and>
      end_time n = Some t \<and>
      steps \<noteq> [] \<and>
      Min (set (map absoluteStartTime (annotatedSteps st startTime steps))) \<le> t \<and>
      t < Max (set (0 # map absoluteEndTime (annotatedSteps st startTime steps)))"
    if "NetworkEvent t n \<in> set (sectionEvents (useGetTestSections st startTime steps))"
  proof -
    from that have "NetworkEvent t n \<in> set (allEvents st startTime steps)"
      using set_sections_subset [of "allEvents st startTime steps"]
      by (auto simp only: useGetTestSections_def)
    from network_event_origin [OF this]
    have "n \<in> set (requestSummaries st)" "cause n = ''xhr'' \<or> cause n = ''fetch''"
      "end_time n = Some t" "isDuringSteps (stepTimes (annotatedSteps st startTime steps)) t"
      by (auto simp add: keepSummary_def)
    with isDuringSteps_stepTimes [of "annotatedSteps st startTime steps" t] e
    show ?thesis by blast
  qed
  then show ?thesis
    by (metis not_less option.distinct(1) option.inject)
qed

theorem network_event_shown_only_if_kept_witness:
  "NetworkEvent 3 (xhrSummary ''req'' 3) \<in>
     set (sectionEvents (useGetTestSections (sampleStore [3, 9] []) 0 [plainStep ''s1'' 0 5 None])) \<and>
   xhrSummary ''req'' 3 \<in> set (requestSummaries (sampleStore [3, 9] [])) \<and>
   cause (xhrSummary ''req'' 3) = ''xhr'' \<and>
   end_time (xhrSummary ''req'' 3) = Some 3 \<and>
   Min (set (map absoluteStartTime (annotatedSteps (sampleStore [3, 9] []) 0 [plainStep ''s1'' 0 5 None]))) \<le> 3 \<and>
   3 < Max (set (0 # map absoluteEndTime (annotatedSteps (sampleStore [3, 9] []) 0 [plainStep ''s1'' 0 5 None]))) \<and>
   end_time (xhrSummary ''req'' 9) = Some 9 \<and>
   Max (set (0 # map absoluteEndTime (annotatedSteps (sampleStore [3, 9] []) 0 [plainStep ''s1'' 0 5 None]))) \<le> 9 \<and>
   NetworkEvent 9 (xhrSummary ''req'' 9) \<notin>
     set (sectionEvents (useGetTestSections (sampleStore [3, 9] []) 0 [plainStep ''s1'' 0 5 None]))"
proof -
  let ?st = "sampleStore [3, 9] []"
  let ?steps = "[plainStep ''s1'' 0 5 None]"
  have h: "NetworkEvent 3 (xhrSummary ''req'' 3) \<in> set (sectionEvents (useGetTestSections ?st 0 ?steps))"
    by code_simp
  have c: "cause (xhrSummary ''req'' 3) = ''xhr''" by (simp add: xhrSummary_def)
  have o: "end_time (xhrSummary ''req'' 9) = Some 9"
    "Max (set (0 # map absoluteEndTime (annotatedSteps ?st 0 ?steps))) \<le> 9"
    by code_simp+
  from network_event_shown_only_if_kept [of 3 "xhrSummary ''req'' 3" ?st 0 ?steps] h
  have 1: "xhrSummary ''req'' 3 \<in> set (requestSummaries ?st)"
    "end_time (xhrSummary ''req'' 3) = Some 3"
    "Min (set (map absoluteStartTime (annotatedSteps ?st 0 ?steps))) \<le> 3"
    "3 < Max (set (0 # map absoluteEndTime (annotatedSteps ?st 0 ?steps)))"
    by blast+
  from network_event_shown_only_if_kept [of 9 "xhrSummary ''req'' 9" ?st 0 ?steps] o
  have 2: "NetworkEvent 9 (xhrSummary ''req'' 9) \<notin> set (sectionEvents (useGetTestSections ?st 0 ?steps))"
    by blast
  from h 1 c o 2 show ?thesis by (intro conjI)
qed

text \<open>
  A network event in a section whose end time is not below the greatest provisional
  end of the steps: the test case starts at -10 and its only step has the duration 5,
  so the provisional end is -5 and the stored end -6; the upper bound of the window is
  0, and a request ending at -3 is kept and shown.
\<close>

theorem network_event_window_counterexample:
  "NetworkEvent (- 3) (xhrSummary ''req'' (- 3)) \<in>
     set (sectionEvents (useGetTestSections (sampleStore [- 3] []) (- 10) [plainStep ''s1'' 0 5 None])) \<and>
   Min (set (map absoluteStartTime
     (annotatedSteps (sampleStore [- 3] []) (- 10) [plainStep ''s1'' 0 5 None]))) = - 10 \<and>
   Max (set (map (provisionalEnd (sampleStore [- 3] []) (- 10)) [plainStep ''s1'' 0 5 None])) = - 5 \<and>
   \<not> - 3 < Max (set (map (provisionalEnd (sampleStore [- 3] []) (- 10)) [plainStep ''s1'' 0 5 None]))"
  by code_simp

subsection \<open>Trailing events\<close>

lemma loop_reaches_nonempty:
  "\<exists>e\<in>set es. isStep e \<Longrightarrow> currentNonEmpty (foldl processEvent st es)"
proof (induction es arbitrary: st)
  case Nil
  then show ?case by simp
next
  case (Cons e es)
  show ?case
  proof (cases "isStep e")
    case True
    then have "currentNonEmpty (processEvent st e)" by (rule processEvent_step_nonempty)
    from heldEvents_loop [OF this, of es] show ?thesis by simp
  next
    case False
    with Cons.prems have "\<exists>e\<in>set es. isStep e" by auto
    from Cons.IH [OF this] show ?thesis by simp
  qed
qed

lemma loop_trailing_nonsteps:
  "currentNonEmpty st \<Longrightarrow> \<forall>x\<in>set ns. \<not> isStep x \<Longrightarrow>
     foldl processEvent st ns = st\<lparr> nonStepStack := nonStepStack st @ ns \<rparr>"
proof (induction ns arbitrary: st)
  case Nil
  then show ?case by simp
next
  case (Cons e ns)
  from Cons.prems have step: "processEvent st e = st\<lparr> nonStepStack := nonStepStack st @ [e] \<rparr>"
    by (simp add: processEvent_nonstep)
  from Cons.prems have "currentNonEmpty (st\<lparr> nonStepStack := nonStepStack st @ [e] \<rparr>)"
    by simp
  from Cons.IH [OF this] Cons.prems(2) show ?case
    by (simp add: step)
qed

lemma finish_eq_appendTrailing:
  "finish st = (if nonStepStack st = [] then loopSections st
                else appendTrailing (loopSections st) (nonStepStack st))"
  by (simp add: finish_def appendTrailing_def loopSections_def Let_def)

lemma finish_trailing:
  assumes "currentNonEmpty st"
  shows "finish (st\<lparr> nonStepStack := nonStepStack st @ ns \<rparr>) = appendTrailing (finish st) ns"
proof -
  from assms have "stateEvents st \<noteq> []" by (rule currentNonEmpty_stateEvents)
  then show ?thesis
    by (auto simp add: finish_def appendTrailing_def stateEvents_def Let_def)
qed

lemma partition_trailing:
  assumes "\<exists>e\<in>set es. isStep e" and "\<forall>x\<in>set ns. \<not> isStep x"
  shows "partitionEvents (es @ ns) = appendTrailing (partitionEvents es) ns"
proof -
  let ?st = "foldl processEvent initialState es"
  from assms(1) have ne: "currentNonEmpty ?st" by (rule loop_reaches_nonempty)
  have "foldl processEvent initialState (es @ ns) = ?st\<lparr> nonStepStack := nonStepStack ?st @ ns \<rparr>"
    using loop_trailing_nonsteps [OF ne assms(2)] by simp
  then show ?thesis
    by (simp only: partitionEvents_def finish_trailing [OF ne])
qed

text \<open>
  Claim C8. After the loop the pending events are appended, in order, to the first
  non-empty section among \<open>afterEach\<close>, \<open>testBody\<close>, \<open>beforeEach\<close>. So network and
  navigation events after the last step join the last non-empty section in that order;
  a request ending after the only step, a \<open>beforeEach\<close> step, is appended to the
  section \<open>beforeEach\<close>.
\<close>

theorem trailing_nonsteps_join_last_section:
  "finish st = (if nonStepStack st = [] then loopSections st
                else appendTrailing (loopSections st) (nonStepStack st)) \<and>
   ((\<exists>e\<in>set es. isStep e) \<and> (\<forall>x\<in>set ns. \<not> isStep x) \<longrightarrow>
      partitionEvents (es @ ns) = appendTrailing (partitionEvents es) ns) \<and>
   useGetTestSections (sampleStore [5] []) 0 [plainStep ''s1'' 0 10 (Some ''beforeEach'')] =
     \<lparr> beforeEach = stepsByTime (sampleStore [5] []) 0 [plainStep ''s1'' 0 10 (Some ''beforeEach'')] @
                     [NetworkEvent 5 (xhrSummary ''req'' 5)],
       testBody = [], afterEach = [] \<rparr>"
proof -
  have "useGetTestSections (sampleStore [5] []) 0 [plainStep ''s1'' 0 10 (Some ''beforeEach'')] =
     \<lparr> beforeEach = stepsByTime (sampleStore [5] []) 0 [plainStep ''s1'' 0 10 (Some ''beforeEach'')] @
                     [NetworkEvent 5 (xhrSummary ''req'' 5)],
       testBody = [], afterEach = [] \<rparr>"
    by code_simp
  then show ?thesis
    using partition_trailing [of es ns] finish_eq_appendTrailing [of st] by blast
qed

theorem trailing_nonsteps_join_last_section_witness:
  "(\<exists>e\<in>set [StepEvent 0 (annotateStep noAnnotations 0 (plainStep ''s1'' 0 10 None) 0)]. isStep e) \<and>
   (\<forall>x\<in>set [NetworkEvent 5 (xhrSummary ''req'' 5), NavigationEvent 6 \<lparr> msg_id = ''n'', url = None \<rparr>].
        \<not> isStep x) = True \<and>
   partitionEvents ([StepEvent 0 (annotateStep noAnnotations 0 (plainStep ''s1'' 0 10 None) 0)] @
       [NetworkEvent 5 (xhrSummary ''req'' 5), NavigationEvent 6 \<lparr> msg_id = ''n'', url = None \<rparr>]) =
     appendTrailing (partitionEvents [StepEvent 0 (annotateStep noAnnotations 0 (plainStep ''s1'' 0 10 None) 0)])
       [NetworkEvent 5 (xhrSummary ''req'' 5), NavigationEvent 6 \<lparr> msg_id = ''n'', url = None \<rparr>] \<and>
   testBody (partitionEvents ([StepEvent 0 (annotateStep noAnnotations 0 (plainStep ''s1'' 0 10 None) 0)] @
       [NetworkEvent 5 (xhrSummary ''req'' 5), NavigationEvent 6 \<lparr> msg_id = ''n'', url = None \<rparr>])) =
     [StepEvent 0 (annotateStep noAnnotations 0 (plainStep ''s1'' 0 10 None) 0),
      NetworkEvent 5 (xhrSummary ''req'' 5), NavigationEvent 6 \<lparr> msg_id = ''n'', url = None \<rparr>]"
proof -
  let ?es = "[StepEvent 0 (annotateStep noAnnotations 0 (plainStep ''s1'' 0 10 None) 0)]"
  let ?ns = "[NetworkEvent 5 (xhrSummary ''req'' 5), NavigationEvent 6 \<lparr> msg_id = ''n'', url = None \<rparr>]"
  have h: "(\<exists>e\<in>set ?es. isStep e) \<and> (\<forall>x\<in>set ?ns. \<not> isStep x)" by simp
  have v: "testBody (appendTrailing (partitionEvents ?es) ?ns) = ?es @ ?ns"
    by (simp add: partitionEvents_def initialState_def finish_def appendTrailing_def noHook_def
        pushCurrent_def flushNonSteps_def Let_def annotateStep_def plainStep_def)
  from trailing_nonsteps_join_last_section [of _ ?es ?ns] h
  have "partitionEvents (?es @ ?ns) = appendTrailing (partitionEvents ?es) ?ns" by blast
  with h v show ?thesis by simp
qed

subsection \<open>Enqueue annotations\<close>

lemma enqueue_resolvedStart [simp]:
  "resolvedStart (st\<lparr> annotationsEnqueue := q \<rparr>) startTime s = resolvedStart st startTime s"
  by (simp add: resolvedStart_def)

lemma enqueue_provisionalEnd [simp]:
  "provisionalEnd (st\<lparr> annotationsEnqueue := q \<rparr>) startTime s = provisionalEnd st startTime s"
  by (simp add: provisionalEnd_def split: option.splits)

lemma eraseEnqueueStep_annotateStep:
  "eraseEnqueueStep (annotateStep (st\<lparr> annotationsEnqueue := q \<rparr>) startTime s i) =
     eraseEnqueueStep (annotateStep st startTime s i)"
  by (simp add: eraseEnqueueStep_def annotateStep_def Let_def)

lemma eraseEnqueueStep_annotateFrom:
  "map eraseEnqueueStep (annotateFrom (st\<lparr> annotationsEnqueue := q \<rparr>) startTime i ss) =
     map eraseEnqueueStep (annotateFrom st startTime i ss)"
  by (induction ss arbitrary: i) (simp_all add: eraseEnqueueStep_annotateStep)

lemma eraseEnqueueStep_times [simp]:
  "absoluteStartTime (eraseEnqueueStep a) = absoluteStartTime a"
  "absoluteEndTime (eraseEnqueueStep a) = absoluteEndTime a"
  "a_hook (eraseEnqueueStep a) = a_hook a"
  by (simp_all add: eraseEnqueueStep_def)

lemma stepTimes_eraseEnqueue: "stepTimes (map eraseEnqueueStep as) = stepTimes as"
  by (simp add: stepTimes_def foldl_timesStep comp_def)

lemma eraseEnqueueStep_annotatedSteps:
  "map eraseEnqueueStep (annotatedSteps (st\<lparr> annotationsEnqueue := q \<rparr>) startTime steps) =
     map eraseEnqueueStep (annotatedSteps st startTime steps)"
  by (simp add: annotatedSteps_def eraseEnqueueStep_annotateFrom)

lemma stepTimes_enqueue:
  "stepTimes (annotatedSteps (st\<lparr> annotationsEnqueue := q \<rparr>) startTime steps) =
     stepTimes (annotatedSteps st startTime steps)"
  using eraseEnqueueStep_annotatedSteps [where st = st and q = q and startTime = startTime and steps = steps]
    stepTimes_eraseEnqueue [of "annotatedSteps (st\<lparr> annotationsEnqueue := q \<rparr>) startTime steps"]
    stepTimes_eraseEnqueue [of "annotatedSteps st startTime steps"]
  by simp

lemma eventTime_eraseEnqueue [simp]: "eventTime (eraseEnqueue e) = eventTime e"
  by (cases e) simp_all

lemma isStep_eraseEnqueue [simp]: "isStep (eraseEnqueue e) = isStep e"
  by (cases e) simp_all

lemma compareEvents_eraseEnqueue [simp]:
  "compareEvents (eraseEnqueue a) (eraseEnqueue b) = compareEvents a b"
  by (cases a; cases b) simp_all

lemma countRun_eraseEnqueue:
  "countRun descending (eraseEnqueue previous) (map eraseEnqueue cs) =
     (map eraseEnqueue (fst (countRun descending previous cs)),
      map eraseEnqueue (snd (countRun descending previous cs)))"
  by (induction cs arbitrary: previous) (simp_all add: Let_def split_def)

lemma countAndMakeRun_eraseEnqueue:
  "countAndMakeRun (map eraseEnqueue xs) =
     (map eraseEnqueue (fst (countAndMakeRun xs)), map eraseEnqueue (snd (countAndMakeRun xs)))"
proof (induction xs rule: countAndMakeRun.induct)
  case (3 low high rest)
  show ?case
    by (simp add: Let_def split_def countRun_eraseEnqueue rev_map)
qed simp_all

lemma binaryInsert_eraseEnqueue:
  "map eraseEnqueue (binaryInsert pivot xs) = binaryInsert (eraseEnqueue pivot) (map eraseEnqueue xs)"
proof (induction pivot xs rule: binaryInsert.induct)
  case (1 pivot xs)
  show ?case
  proof (cases "xs = []")
    case True
    then show ?thesis by (simp add: binaryInsert.simps)
  next
    case False
    let ?mid = "length xs div 2"
    from False have mid: "?mid < length xs" by simp
    then have c: "compareEvents (eraseEnqueue pivot) (map eraseEnqueue xs ! ?mid) =
        compareEvents pivot (xs ! ?mid)"
      by simp
    show ?thesis
    proof (cases "compareEvents pivot (xs ! ?mid) < 0")
      case True
      with False "1.IH"(1) have "map eraseEnqueue (binaryInsert pivot (take ?mid xs)) =
          binaryInsert (eraseEnqueue pivot) (map eraseEnqueue (take ?mid xs))" by simp
      with True False c show ?thesis
        by (subst (1 2) binaryInsert.simps) (simp add: Let_def take_map drop_map)
    next
      case n: False
      with False "1.IH"(2) have "map eraseEnqueue (binaryInsert pivot (drop (Suc ?mid) xs)) =
          binaryInsert (eraseEnqueue pivot) (map eraseEnqueue (drop (Suc ?mid) xs))" by simp
      with n False c show ?thesis
        by (subst (1 2) binaryInsert.simps) (simp add: Let_def take_map drop_map)
    qed
  qed
qed

lemma insert_all_eraseEnqueue:
  "map eraseEnqueue (foldl (\<lambda>sorted pivot. binaryInsert pivot sorted) run ps) =
     foldl (\<lambda>sorted pivot. binaryInsert pivot sorted) (map eraseEnqueue run) (map eraseEnqueue ps)"
  by (induction ps arbitrary: run) (simp_all add: binaryInsert_eraseEnqueue)

lemma sortEvents_eraseEnqueue:
  "map eraseEnqueue (sortEvents xs) = sortEvents (map eraseEnqueue xs)"
  by (simp add: sortEvents_def countAndMakeRun_eraseEnqueue split_def Let_def insert_all_eraseEnqueue)

lemma eraseEnqueue_nonsteps:
  "\<forall>e\<in>set es. \<not> isStep e \<Longrightarrow> map eraseEnqueue es = es"
proof (induction es)
  case Nil
  then show ?case by simp
next
  case (Cons e es)
  then show ?case by (cases e) simp_all
qed

lemma nonsteps_network: "\<forall>e\<in>set (networkDataByTime r ns). \<not> isStep e"
  by (simp add: networkDataByTime_def)

lemma nonsteps_navigation: "\<forall>e\<in>set (navigationEventsByTime r es). \<not> isStep e"
  by (simp add: navigationEventsByTime_def)

lemma eraseEnqueue_toStepEvent: "eraseEnqueue (toStepEvent a) = toStepEvent (eraseEnqueueStep a)"
  by (simp add: toStepEvent_def)

lemma allEvents_eraseEnqueue:
  "map eraseEnqueue (allEvents st startTime steps) =
     sortEvents (networkDataByTime (stepTimes (annotatedSteps st startTime steps)) (requestSummaries st) @
                 map toStepEvent (map eraseEnqueueStep (annotatedSteps st startTime steps)) @
                 navigationEventsByTime (stepTimes (annotatedSteps st startTime steps)) (navigationEvents st))"
  by (simp add: allEvents_def Let_def sortEvents_eraseEnqueue
      eraseEnqueue_nonsteps [OF nonsteps_network] eraseEnqueue_nonsteps [OF nonsteps_navigation]
      eraseEnqueue_toStepEvent comp_def)

lemma allEvents_enqueue:
  "map eraseEnqueue (allEvents (st\<lparr> annotationsEnqueue := q \<rparr>) startTime steps) =
     map eraseEnqueue (allEvents st startTime steps)"
  by (simp add: allEvents_eraseEnqueue stepTimes_enqueue eraseEnqueueStep_annotatedSteps)

lemma stackAt_mapState [simp]: "stackAt (mapState f st) c = map f (stackAt st c)"
  by (cases c) (simp_all add: mapState_def)

lemma mapState_fields [simp]:
  "currentStack (mapState f st) = currentStack st"
  "nonStepStack (mapState f st) = map f (nonStepStack st)"
  by (simp_all add: mapState_def)

lemma mapState_currentStack:
  "mapState f (st\<lparr> currentStack := c \<rparr>) = (mapState f st)\<lparr> currentStack := c \<rparr>"
  by (simp add: mapState_def)

lemma mapState_same_currentStack [simp]:
  "(mapState f st)\<lparr> currentStack := currentStack st \<rparr> = mapState f st"
  by (simp add: mapState_def)

lemma mapState_pending:
  "mapState f (st\<lparr> nonStepStack := ns \<rparr>) = (mapState f st)\<lparr> nonStepStack := map f ns \<rparr>"
  by (simp add: mapState_def)

lemma mapState_pushCurrent:
  "mapState f (pushCurrent st xs) = pushCurrent (mapState f st) (map f xs)"
  by (cases "currentStack st") (simp_all add: pushCurrent_def mapState_def)

lemma mapState_flushNonSteps:
  "mapState f (flushNonSteps st) = flushNonSteps (mapState f st)"
  by (cases "currentStack st") (simp_all add: flushNonSteps_def pushCurrent_def mapState_def)

lemma processEvent_eraseEnqueue:
  "processEvent (mapState eraseEnqueue st) (eraseEnqueue e) = mapState eraseEnqueue (processEvent st e)"
proof (cases e)
  case (StepEvent t a)
  show ?thesis
    by (simp add: StepEvent Let_def mapState_flushNonSteps mapState_pushCurrent
        mapState_currentStack)
next
  case (NetworkEvent t n)
  then show ?thesis by (simp add: mapState_pending)
next
  case (NavigationEvent t m)
  then show ?thesis by (simp add: mapState_pending)
qed

lemma loop_eraseEnqueue:
  "foldl processEvent (mapState eraseEnqueue st) (map eraseEnqueue es) =
     mapState eraseEnqueue (foldl processEvent st es)"
  by (induction es arbitrary: st) (simp_all add: processEvent_eraseEnqueue)

lemma finish_mapState: "finish (mapState f st) = mapSections f (finish st)"
  by (simp add: finish_def mapSections_def mapState_def Let_def)

lemma partitionEvents_eraseEnqueue:
  "partitionEvents (map eraseEnqueue es) = mapSections eraseEnqueue (partitionEvents es)"
proof -
  have "mapState eraseEnqueue initialState = initialState"
    by (simp add: mapState_def initialState_def)
  with loop_eraseEnqueue [of initialState es] show ?thesis
    by (simp add: partitionEvents_def finish_mapState)
qed

text \<open>
  Claim C10. Two runs that differ only in the enqueue annotations return sections that
  are equal once the field \<open>annotations.enqueue\<close> of the step events is forgotten, and
  the windows of the two runs are equal: the enqueue annotations reach nothing but that
  field. A start annotation, in contrast, changes the time of its step.
\<close>

theorem enqueue_annotations_only_stored:
  "mapSections eraseEnqueue (useGetTestSections (st\<lparr> annotationsEnqueue := q1 \<rparr>) startTime steps) =
     mapSections eraseEnqueue (useGetTestSections (st\<lparr> annotationsEnqueue := q2 \<rparr>) startTime steps) \<and>
   stepTimes (annotatedSteps (st\<lparr> annotationsEnqueue := q1 \<rparr>) startTime steps) =
     stepTimes (annotatedSteps (st\<lparr> annotationsEnqueue := q2 \<rparr>) startTime steps) \<and>
   absoluteStartTime (annotateStep (noAnnotations\<lparr> annotationsStart := [annotationAt ''s1'' 7] \<rparr>) 100
       (plainStep ''s1'' 0 5 None) 0) \<noteq>
     absoluteStartTime (annotateStep noAnnotations 100 (plainStep ''s1'' 0 5 None) 0)"
proof -
  have "mapSections eraseEnqueue (useGetTestSections (st\<lparr> annotationsEnqueue := q \<rparr>) startTime steps) =
        partitionEvents (map eraseEnqueue (allEvents st startTime steps))" for q
    by (simp only: useGetTestSections_def partitionEvents_eraseEnqueue [symmetric] allEvents_enqueue)
  then have 1: "mapSections eraseEnqueue (useGetTestSections (st\<lparr> annotationsEnqueue := q1 \<rparr>) startTime steps) =
     mapSections eraseEnqueue (useGetTestSections (st\<lparr> annotationsEnqueue := q2 \<rparr>) startTime steps)"
    by simp
  have 2: "stepTimes (annotatedSteps (st\<lparr> annotationsEnqueue := q1 \<rparr>) startTime steps) =
     stepTimes (annotatedSteps (st\<lparr> annotationsEnqueue := q2 \<rparr>) startTime steps)"
    by (simp only: stepTimes_enqueue)
  have 3: "absoluteStartTime (annotateStep (noAnnotations\<lparr> annotationsStart := [annotationAt ''s1'' 7] \<rparr>) 100
       (plainStep ''s1'' 0 5 None) 0) \<noteq>
     absoluteStartTime (annotateStep noAnnotations 100 (plainStep ''s1'' 0 5 None) 0)"
    by code_simp
  from 1 2 3 show ?thesis by (intro conjI)
qed

subsection \<open>The hook tie-break of the comparator\<close>

lemma compareEvents_first_argument_hook:
  "a_hook a \<noteq> a_hook b \<Longrightarrow>
     (a_hook a = Some ''beforeEach'' \<longrightarrow> compareEvents (StepEvent ta a) (StepEvent tb b) = - 1) \<and>
     (a_hook a = Some ''afterEach'' \<longrightarrow> compareEvents (StepEvent ta a) (StepEvent tb b) = 1) \<and>
     (a_hook a \<noteq> Some ''beforeEach'' \<and> a_hook a \<noteq> Some ''afterEach'' \<longrightarrow>
        compareEvents (StepEvent ta a) (StepEvent tb b) = dsub ta tb)"
  by auto

lemma scenario_B:
  "useGetTestSections noAnnotations 0
     [plainStep ''s1'' 0 1 (Some ''beforeEach''), plainStep ''s2'' 10 1 None] =
   \<lparr> beforeEach = [toStepEvent (annotateStep noAnnotations 0 (plainStep ''s1'' 0 1 (Some ''beforeEach'')) 0)],
     testBody = [toStepEvent (annotateStep noAnnotations 0 (plainStep ''s2'' 10 1 None) 1)],
     afterEach = [] \<rparr>"
  by code_simp

text \<open>
  Claim C9 at steps with differing hooks. The steps are a \<open>beforeEach\<close> step at time
  10 followed by an unhooked step at time 0: called with the \<open>beforeEach\<close> step first
  the comparator returns \<open>-1\<close>, but the sort calls it with the unhooked step first;
  then it tests the hook of the unhooked step only, compares the times and returns
  \<open>-10\<close>, and the sorted sequence has the unhooked step before the \<open>beforeEach\<close>
  step. Likewise for an \<open>afterEach\<close> step at time 0 followed by an unhooked step at
  time 10: the call with the unhooked step first returns \<open>10\<close> and the \<open>afterEach\<close>
  step stays before the unhooked step.
\<close>

theorem hook_tie_break_one_sided:
  "compareEvents
     (toStepEvent (annotateStep noAnnotations 0 (plainStep ''s2'' 10 1 (Some ''beforeEach'')) 0))
     (toStepEvent (annotateStep noAnnotations 0 (plainStep ''s1'' 0 1 None) 1)) = - 1 \<and>
   compareEvents
     (toStepEvent (annotateStep noAnnotations 0 (plainStep ''s1'' 0 1 None) 1))
     (toStepEvent (annotateStep noAnnotations 0 (plainStep ''s2'' 10 1 (Some ''beforeEach'')) 0)) = - 10 \<and>
   allEvents noAnnotations 0 [plainStep ''s2'' 10 1 (Some ''beforeEach''), plainStep ''s1'' 0 1 None] =
     [toStepEvent (annotateStep noAnnotations 0 (plainStep ''s1'' 0 1 None) 1),
      toStepEvent (annotateStep noAnnotations 0 (plainStep ''s2'' 10 1 (Some ''beforeEach'')) 0)] \<and>
   compareEvents
     (toStepEvent (annotateStep noAnnotations 0 (plainStep ''s4'' 10 1 None) 1))
     (toStepEvent (annotateStep noAnnotations 0 (plainStep ''s3'' 0 1 (Some ''afterEach'')) 0)) = 10 \<and>
   allEvents noAnnotations 0 [plainStep ''s3'' 0 1 (Some ''afterEach''), plainStep ''s4'' 10 1 None] =
     [toStepEvent (annotateStep noAnnotations 0 (plainStep ''s3'' 0 1 (Some ''afterEach'')) 0),
      toStepEvent (annotateStep noAnnotations 0 (plainStep ''s4'' 10 1 None) 1)]"
  by code_simp

subsection \<open>Order within a section\<close>



lemma stackAt_currentStack_update [simp]: "stackAt (st\<lparr> currentStack := c \<rparr>) d = stackAt st d"
  by (cases d) simp_all

lemma stackAt_pending_update [simp]: "stackAt (st\<lparr> nonStepStack := ns \<rparr>) d = stackAt st d"
  by (cases d) simp_all


lemma stepTarget_nonstep [simp]: "\<not> isStep e \<Longrightarrow> stepTarget c e = c"
  by (cases e) simp_all

























subsection \<open>Order of the sections in hook order\<close>












end
